theory Spec2Isabelle
  imports Complex_Main
begin

section \<open>The drive session\<close>

text \<open>
  \<open>paranoia_analyze_verify\<close> (paranoia/cachetest.c) talks to the drive only through
  \<open>cdda_read\<close>, \<open>cdda_milliseconds\<close>, \<open>cdda_speed_set\<close> and the track queries of the
  interface library.  The library is not part of the file, so the drive is a parameter
  of the model: a deterministic drive answers a request as a function of every request
  issued so far (most recent first, the current one at the head) with the value
  \<open>cdda_read\<close> returns and the value \<open>cdda_milliseconds\<close> reports afterwards.

  The C \<open>int\<close>s are modelled as \<open>int\<close>: all quantities are sector numbers, counts
  below 15002 and latencies clamped to 9999, far from the 32-bit range.
\<close>

datatype request = Read int int | SpeedSet int

type_synonym drive = "request list \<Rightarrow> int \<times> int"

record dstate =
  history :: "request list"
  last_ms :: int

definition init_state :: dstate where
  "init_state = \<lparr>history = [], last_ms = 0\<rparr>"

definition cdda_read :: "drive \<Rightarrow> dstate \<Rightarrow> int \<Rightarrow> int \<Rightarrow> int \<times> dstate" where
  "cdda_read d s off n =
     (let h = Read off n # history s
      in (fst (d h), s\<lparr>history := h, last_ms := snd (d h)\<rparr>))"

definition cdda_milliseconds :: "dstate \<Rightarrow> int" where
  "cdda_milliseconds s = last_ms s"

text \<open>The result of \<open>cdda_speed_set\<close> is only logged; the request is kept in the history.\<close>

definition cdda_speed_set :: "dstate \<Rightarrow> int \<Rightarrow> dstate" where
  "cdda_speed_set s n = s\<lparr>history := SpeedSet n # history s\<rparr>"

section \<open>Exits of the probe\<close>

text \<open>
  One constructor for each \<open>return\<close> statement of the function, in source order, and
  \<open>UndefinedConversion\<close> for the conversion of a NaN mean to \<open>int\<close> in the baseline
  sampler (undefined behaviour in C).  \<open>Finished current exceeds noncontig\<close> is the final
  \<open>return warn\<close>: \<open>warn\<close> is set to 1 at the exceeds-model warning and at the
  non-contiguous warning.
\<close>

datatype exit =
    NoAudio
  | DeviceFatalSetup
  | DeviceFatalRead
  | UndefinedConversion
  | SearchTooManyErrors
  | SearchTimingError
  | CannotDetermine
  | NoCache
  | VerifyOutOfSpace
  | VerifyTooManyErrors
  | VerifyTimingError
  | Finished int bool bool

fun return_code :: "exit \<Rightarrow> int option" where
  "return_code NoAudio = Some (-1)"
| "return_code DeviceFatalSetup = Some (-1)"
| "return_code DeviceFatalRead = Some (-1)"
| "return_code UndefinedConversion = None"
| "return_code SearchTooManyErrors = Some (-1)"
| "return_code SearchTimingError = Some (-1)"
| "return_code CannotDetermine = Some 1"
| "return_code NoCache = Some 0"
| "return_code VerifyOutOfSpace = Some (-1)"
| "return_code VerifyTooManyErrors = Some (-1)"
| "return_code VerifyTimingError = Some (-1)"
| "return_code (Finished current exceeds noncontig) =
     Some (if exceeds \<or> noncontig then 1 else 0)"

section \<open>Cache-size search\<close>

text \<open>
  The slow fill read of rounds 5 to 14:
  \<^verbatim>\<open>while(sofar<current){ ret1 = cdda_read(d,NULL,offset+sofar,current-sofar);
                         if(ret1<=0)break; sofar+=ret1; }\<close>
  \<open>ret1\<close> is the value of the last read; the loop runs at least once as \<open>current\<close> is
  at least 1 whenever it is entered.
\<close>

function slow_fill :: "drive \<Rightarrow> int \<Rightarrow> int \<Rightarrow> int \<Rightarrow> int \<Rightarrow> dstate \<Rightarrow> int \<times> dstate" where
  "slow_fill d offset current sofar ret1 s =
     (if sofar < current then
        (let (r, s') = cdda_read d s (offset + sofar) (current - sofar)
         in if r \<le> 0 then (r, s')
            else slow_fill d offset current (sofar + r) r s')
      else (ret1, s))"
  by pat_completeness auto
termination
  by (relation "measure (\<lambda>(d, offset, current, sofar, ret1, s). nat (current - sofar))") auto

text \<open>
  The first read of a try, \<open>ret1\<close>: from round 5 on the slow fill read of \<open>current\<close>
  sectors at the test offset, with the request for speed 1 in round 5; before that one
  sector at \<open>offset+current-1\<close>.
\<close>

definition fill_read :: "drive \<Rightarrow> int \<Rightarrow> nat \<Rightarrow> int \<Rightarrow> dstate \<Rightarrow> int \<times> dstate" where
  "fill_read d current i offset s =
     (if 5 \<le> i then
        slow_fill d offset current 0 0 (if i = 5 then cdda_speed_set s 1 else s)
      else cdda_read d s (offset + current - 1) 1)"

text \<open>
  One round \<open>i\<close> of the search: the body of \<open>for(j=0;;j++)\<close>.  A failed read moves the
  test offset forward by \<open>current+100\<close> and tries again; \<open>j\<close> counts from 0 in steps of
  1, so \<open>j==10\<close> is the first time \<open>10 \<le> j\<close> holds.  The result is the exit taken or
  the value of \<open>under\<close>, with the new offset and drive state.
\<close>

function search_try ::
  "drive \<Rightarrow> int \<Rightarrow> int \<Rightarrow> nat \<Rightarrow> nat \<Rightarrow> int \<Rightarrow> dstate \<Rightarrow> (exit + bool) \<times> int \<times> dstate" where
  "search_try d lastsector current i j offset s =
     (let (ret1, s1) = fill_read d current i offset s;
          (ret2, s2) = cdda_read d s1 offset 1
      in if ret1 \<le> 0 \<or> ret2 \<le> 0 then
           (let offset' = offset + (current + 100)
            in if 10 \<le> j \<or> offset' + current > lastsector
               then (Inl SearchTooManyErrors, offset', s2)
               else search_try d lastsector current i (Suc j) offset' s2)
         else if cdda_milliseconds s2 = -1 then (Inl SearchTimingError, offset, s2)
         else (Inr (cdda_milliseconds s2 < 9), offset, s2))"
  by pat_completeness auto
termination
  by (relation "measure (\<lambda>(d, lastsector, current, i, j, offset, s). 10 - j)") auto

text \<open>
  \<open>for(i=0;i<15 && !under;i++)\<close>, entered with \<open>under=0\<close>.  The second component of
  the result is the value of \<open>i\<close> when the loop is left.
\<close>

function search_rounds ::
  "drive \<Rightarrow> int \<Rightarrow> int \<Rightarrow> nat \<Rightarrow> int \<Rightarrow> dstate \<Rightarrow> (exit + bool) \<times> nat \<times> int \<times> dstate" where
  "search_rounds d lastsector current i offset s =
     (if i < 15 then
        (case search_try d lastsector current i 0 offset s of
           (Inl e, offset', s') \<Rightarrow> (Inl e, i, offset', s')
         | (Inr hit, offset', s') \<Rightarrow>
             if hit then (Inr True, Suc i, offset', s')
             else search_rounds d lastsector current (Suc i) offset' s')
      else (Inr False, i, offset, s))"
  by pat_completeness auto
termination
  by (relation "measure (\<lambda>(d, lastsector, current, i, offset, s). 15 - i)") auto

text \<open>
  \<open>while(current <= hi && under)\<close> with \<open>hi=15000\<close>; the result is the exit taken, or
  \<open>current\<close> and \<open>under\<close> (here \<open>und\<close>) when the loop is left.
\<close>

definition hi :: int where
  "hi = 15000"

function search_loop ::
  "drive \<Rightarrow> int \<Rightarrow> int \<Rightarrow> bool \<Rightarrow> int \<Rightarrow> dstate \<Rightarrow> (exit + int \<times> bool) \<times> int \<times> dstate" where
  "search_loop d lastsector current und offset s =
     (if current \<le> hi \<and> und then
        (case search_rounds d lastsector (current + 1) 0 offset s of
           (Inl e, i, offset', s') \<Rightarrow> (Inl e, offset', s')
         | (Inr und', i, offset', s') \<Rightarrow>
             search_loop d lastsector (current + 1) und' offset' s')
      else (Inr (current, und), offset, s))"
  by pat_completeness auto
termination
  by (relation "measure (\<lambda>(d, lastsector, current, und, offset, s). nat (hi + 1 - current))")
     (auto simp: hi_def)

section \<open>Contiguity verification\<close>

text \<open>
  The body of \<open>for(j=0;;j++)\<close> in the contiguity check, with \<open>seekoff = current*3\<close>.
  The space check comes first in every try; a failed read moves the offset by
  \<open>current+100\<close> and is fatal at \<open>j==10\<close>.
\<close>

function verify_try ::
  "drive \<Rightarrow> int \<Rightarrow> int \<Rightarrow> int \<Rightarrow> nat \<Rightarrow> int \<Rightarrow> dstate \<Rightarrow> (exit + bool) \<times> int \<times> dstate" where
  "verify_try d lastsector current seekoff j offset s =
     (if offset + seekoff > lastsector then (Inl VerifyOutOfSpace, offset, s)
      else
        (let (ret1, s1) = cdda_read d s (offset + seekoff) 1;
             (ret2, s2) = cdda_read d s1 offset 1
         in if ret1 \<le> 0 \<or> ret2 \<le> 0 then
              (let offset' = offset + (current + 100)
               in if 10 \<le> j then (Inl VerifyTooManyErrors, offset', s2)
                  else verify_try d lastsector current seekoff (Suc j) offset' s2)
            else if cdda_milliseconds s2 = -1 then (Inl VerifyTimingError, offset, s2)
            else (Inr (cdda_milliseconds s2 < 9), offset, s2)))"
  by pat_completeness auto
termination
  by (relation "measure (\<lambda>(d, lastsector, current, seekoff, j, offset, s). 10 - j)") auto

text \<open>\<open>for(i=0;i<30 && !under;i++)\<close>, entered with \<open>under=0\<close>.\<close>

function verify_rounds ::
  "drive \<Rightarrow> int \<Rightarrow> int \<Rightarrow> int \<Rightarrow> nat \<Rightarrow> int \<Rightarrow> dstate \<Rightarrow> (exit + bool) \<times> nat \<times> int \<times> dstate" where
  "verify_rounds d lastsector current seekoff i offset s =
     (if i < 30 then
        (case verify_try d lastsector current seekoff 0 offset s of
           (Inl e, offset', s') \<Rightarrow> (Inl e, i, offset', s')
         | (Inr hit, offset', s') \<Rightarrow>
             if hit then (Inr True, Suc i, offset', s')
             else verify_rounds d lastsector current seekoff (Suc i) offset' s')
      else (Inr False, i, offset, s))"
  by pat_completeness auto
termination
  by (relation "measure (\<lambda>(d, lastsector, current, seekoff, i, offset, s). 30 - i)") auto

text \<open>
  The code after the search loop: the classification of \<open>current\<close>, the exceeds-model
  warning against \<open>CACHEMODEL_SECTORS\<close> (a constant of \<open>p_block.h\<close>, a parameter here)
  and the contiguity check.  At \<open>current>1\<close> the size \<open>current-1\<close> is written to the
  report; nothing but the \<open>int\<close> is returned.
\<close>

definition classify_verify ::
  "drive \<Rightarrow> int \<Rightarrow> int \<Rightarrow> int \<Rightarrow> int \<Rightarrow> dstate \<Rightarrow> exit \<times> dstate" where
  "classify_verify d cachemodel lastsector current offset s =
     (if current = hi then (CannotDetermine, s)
      else if current > 1 then
        (let exceeds = (current - 1 > cachemodel);
             seekoff = current * 3
         in case verify_rounds d lastsector current seekoff 0 offset s of
              (Inl e, i, offset', s') \<Rightarrow> (e, s')
            | (Inr und, i, offset', s') \<Rightarrow> (Finished current exceeds und, s'))
      else (NoCache, s))"

text \<open>The search and what follows it, from \<open>int hi=15000\<close> to the end of the function.\<close>

definition search_and_verify ::
  "drive \<Rightarrow> int \<Rightarrow> int \<Rightarrow> int \<Rightarrow> dstate \<Rightarrow> exit \<times> dstate" where
  "search_and_verify d cachemodel firstsector lastsector s =
     (case search_loop d lastsector 0 True firstsector s of
        (Inl e, offset, s') \<Rightarrow> (e, s')
      | (Inr (current, und), offset, s') \<Rightarrow>
          classify_verify d cachemodel lastsector current offset s')"

section \<open>The longest stretch of audio\<close>

record track =
  track_audio :: bool
  track_firstsector :: int
  track_lastsector :: int

text \<open>
  The scan over the tracks; the state is
  \<open>(firsttest, lasttest, firstsector, lastsector)\<close>, all \<open>-1\<close> at the start.
\<close>

fun scan_track :: "int \<times> int \<times> int \<times> int \<Rightarrow> track \<Rightarrow> int \<times> int \<times> int \<times> int" where
  "scan_track (firsttest, lasttest, firstsector, lastsector) t =
     (if track_audio t then
        (let firsttest' = (if firsttest = -1 then track_firstsector t else firsttest);
             lasttest' = track_lastsector t
         in if lasttest' - firsttest' > lastsector - firstsector
            then (firsttest', lasttest', firsttest', lasttest')
            else (firsttest', lasttest', firstsector, lastsector))
      else (-1, -1, firstsector, lastsector))"

definition find_range :: "track list \<Rightarrow> int \<times> int" where
  "find_range ts = (case foldl scan_track (-1, -1, -1, -1) ts of
                      (firsttest, lasttest, firstsector, lastsector) \<Rightarrow> (firstsector, lastsector))"

section \<open>Baseline sampling and the outlier-rejecting statistic\<close>

text \<open>
  The C code computes the statistic in \<open>float\<close> and \<open>double\<close>.  The model computes it
  in exact real arithmetic: rounding is left out, NaN is kept as \<open>None\<close> (it arises
  from the square root of a negative number and from \<open>0/0\<close>), and the conversion of
  a NaN to \<open>int\<close> is the exit \<open>UndefinedConversion\<close>.
\<close>

datatype 'a flow = Return exit | Skip | Cont 'a

definition clamp_ms :: "int \<Rightarrow> int" where
  "clamp_ms x = (let x1 = (if x > 9999 then 9999 else x) in if x1 < 0 then 0 else x1)"

text \<open>
  \<open>for(i=0,sofar=0;sofar<current;i++)\<close>: the samples \<open>(latency[i], sectors[i])\<close> in
  index order, with \<open>sum\<close> and \<open>sumsq\<close> accumulated for \<open>i>0\<close>.  \<open>Skip\<close> is
  \<open>goto next\<close>.
\<close>

function sample_loop ::
  "drive \<Rightarrow> int \<Rightarrow> int \<Rightarrow> nat \<Rightarrow> int \<Rightarrow> (int \<times> int) list \<Rightarrow> real \<Rightarrow> real \<Rightarrow> dstate
     \<Rightarrow> ((int \<times> int) list \<times> real \<times> real) flow \<times> dstate" where
  "sample_loop d offset current i sofar samples sumx sumsq s =
     (if sofar < current then
        (let toread = (if i = 0 then 1 else current - sofar);
             (ret, s') = cdda_read d s (offset + sofar) toread
         in if ret \<le> 0 then
              (if ret = -404 then (Return DeviceFatalRead, s') else (Skip, s'))
            else
              (let x = clamp_ms (cdda_milliseconds s')
               in sample_loop d offset current (Suc i) (sofar + ret) (samples @ [(x, ret)])
                    (if i \<noteq> 0 then sumx + real_of_int x else sumx)
                    (if i \<noteq> 0 then sumsq + real_of_int (x * x) / real_of_int ret else sumsq)
                    s'))
      else (Cont (samples, sumx, sumsq), s))"
  by pat_completeness auto
termination
  by (relation "measure (\<lambda>(d, offset, current, i, sofar, samples, sumx, sumsq, s).
                           nat (current - sofar))") auto

definition c_sqrt :: "real \<Rightarrow> real option" where
  "c_sqrt v = (if v < 0 then None else Some (sqrt v))"

definition raw_mean :: "real \<Rightarrow> int \<Rightarrow> real" where
  "raw_mean sumx current = sumx / real_of_int (current - 1)"

definition raw_stddev :: "real \<Rightarrow> real \<Rightarrow> int \<Rightarrow> real option" where
  "raw_stddev sumx sumsq current =
     c_sqrt (sumsq / real_of_int (current - 1) - raw_mean sumx current * raw_mean sumx current)"

text \<open>\<open>upper = mean+((isnan(stddev) || stddev*2<1.)?1.:stddev*2)\<close>\<close>

definition upper :: "real \<Rightarrow> real \<Rightarrow> int \<Rightarrow> real" where
  "upper sumx sumsq current =
     raw_mean sumx current +
       (case raw_stddev sumx sumsq current of
          None \<Rightarrow> 1
        | Some stddev \<Rightarrow> if stddev * 2 < 1 then 1 else stddev * 2)"

text \<open>
  \<open>for(j=1;j<i;j++)\<close> over the samples after the first, on \<open>(mean, sofar)\<close>
  starting from \<open>(0, 0)\<close>.
\<close>

fun second_pass :: "real \<Rightarrow> (int \<times> int) list \<Rightarrow> real \<times> int \<Rightarrow> real \<times> int" where
  "second_pass up [] acc = acc"
| "second_pass up ((lat, sec) # rest) (mean, sofar) =
     (if real_of_int lat / real_of_int sec \<le> up
      then second_pass up rest (mean + real_of_int lat, sofar + sec)
      else second_pass up rest (mean, sofar))"

text \<open>\<open>mean/=sofar\<close>: \<open>0/0\<close> is NaN.\<close>

definition reported_mean :: "(int \<times> int) list \<Rightarrow> real \<Rightarrow> real \<Rightarrow> int \<Rightarrow> real option" where
  "reported_mean samples sumx sumsq current =
     (case second_pass (upper sumx sumsq current) (tl samples) (0, 0) of
        (mean, sofar) \<Rightarrow> if sofar = 0 then None else Some (mean / real_of_int sofar))"

definition c_trunc :: "real \<Rightarrow> int" where
  "c_trunc v = (if 0 \<le> v then \<lfloor>v\<rfloor> else \<lceil>v\<rceil>)"

text \<open>
  The spin-up bookkeeping after the statistic, on \<open>(best, bestcount, iterating)\<close>,
  with \<open>sofar=mean*current\<close>.
\<close>

definition spinup :: "int \<Rightarrow> int \<times> int \<times> bool \<Rightarrow> int \<times> int \<times> bool" where
  "spinup sofar st =
     (case st of (best, bestcount, iterating) \<Rightarrow>
        if \<not> iterating then
          (if - sofar < best then (- sofar, 0, iterating)
           else (let bestcount' = bestcount + sofar
                 in (best, bestcount', bestcount' > sofar \<and> bestcount' > 2000)))
        else (best, bestcount, iterating))"

text \<open>One pass of the body of \<open>while(offset>=firstsector)\<close> up to the label \<open>next\<close>.\<close>

definition baseline_step ::
  "drive \<Rightarrow> int \<Rightarrow> int \<Rightarrow> int \<times> int \<times> bool \<Rightarrow> dstate \<Rightarrow> (exit + int \<times> int \<times> bool) \<times> dstate" where
  "baseline_step d current offset st s =
     (let (ret, s1) = cdda_read d s (offset + current + 1) 1
      in if ret < 0 then
           (if ret = -404 then (Inl DeviceFatalSetup, s1) else (Inr st, s1))
         else
           (case sample_loop d offset current 0 0 [] 0 0 s1 of
              (Return e, s2) \<Rightarrow> (Inl e, s2)
            | (Skip, s2) \<Rightarrow> (Inr st, s2)
            | (Cont (samples, sumx, sumsq), s2) \<Rightarrow>
                (case reported_mean samples sumx sumsq current of
                   None \<Rightarrow> (Inl UndefinedConversion, s2)
                 | Some mean \<Rightarrow>
                     (Inr (spinup (c_trunc (mean * real_of_int current)) st), s2))))"

definition next_offset :: "int \<Rightarrow> int \<Rightarrow> bool \<Rightarrow> int" where
  "next_offset firstsector offset iterating =
     (if iterating
      then (offset - firstsector + 44999) div 45000 * 45000 + firstsector - 45000
      else offset - 1)"

function baseline_loop ::
  "drive \<Rightarrow> int \<Rightarrow> int \<Rightarrow> int \<Rightarrow> int \<times> int \<times> bool \<Rightarrow> dstate \<Rightarrow> exit option \<times> dstate" where
  "baseline_loop d firstsector current offset st s =
     (if offset \<ge> firstsector then
        (case baseline_step d current offset st s of
           (Inl e, s') \<Rightarrow> (Some e, s')
         | (Inr st', s') \<Rightarrow>
             baseline_loop d firstsector current
               (next_offset firstsector offset (snd (snd st'))) st' s')
      else (None, s))"
  by pat_completeness auto
termination
proof (relation "measure (\<lambda>(d, firstsector, current, offset, st, s).
                            nat (offset - firstsector + 1))")
  fix firstsector offset :: int and st' :: "int \<times> int \<times> bool"
  assume "firstsector \<le> offset"
  then have "next_offset firstsector offset (snd (snd st')) < offset"
    unfolding next_offset_def by auto
  then show "((d, firstsector, current, next_offset firstsector offset (snd (snd st')), st', s'),
              (d, firstsector, current, offset, st, s))
             \<in> measure (\<lambda>(d, firstsector, current, offset, st, s). nat (offset - firstsector + 1))"
    for d :: drive and current :: int and st :: "int \<times> int \<times> bool" and s s' :: dstate
    using \<open>firstsector \<le> offset\<close> by simp
qed simp

section \<open>The whole probe\<close>

text \<open>
  \<open>paranoia_analyze_verify\<close> on a drive \<open>d\<close> and the tracks of the disc, from the
  state in which no request has been made.  The result is the exit taken and the final
  drive state; the \<open>int\<close> the C function returns is \<open>return_code\<close> of the exit.
\<close>

definition paranoia_analyze_verify :: "drive \<Rightarrow> int \<Rightarrow> track list \<Rightarrow> exit \<times> dstate" where
  "paranoia_analyze_verify d cachemodel tracks =
     (case find_range tracks of
        (firstsector, lastsector) \<Rightarrow>
          if firstsector = -1 then (NoAudio, init_state)
          else
            (case baseline_loop d firstsector 1000 (lastsector - firstsector - 1000 - 1)
                    (0, 0, False) init_state of
               (Some e, s) \<Rightarrow> (e, s)
             | (None, s) \<Rightarrow> search_and_verify d cachemodel firstsector lastsector s))"

section \<open>Sessions used as examples\<close>

text \<open>
  Three discs.  On the first, a data track followed by one audio track, the baseline
  sampler starts at \<open>lastsector-firstsector-current-1 = 98999\<close>, below
  \<open>firstsector\<close>, so its loop body is never run.  The second has one audio track of
  1002 sectors: the baseline sampler runs once, at offset 0.  On the third the only audio
  track has 5 sectors, between two data tracks; the baseline loop body is not run on it.
\<close>

definition mixed_disc :: "track list" where
  "mixed_disc = [\<lparr>track_audio = False, track_firstsector = 0, track_lastsector = 99999\<rparr>,
                 \<lparr>track_audio = True, track_firstsector = 100000, track_lastsector = 200000\<rparr>]"

definition small_disc :: "track list" where
  "small_disc = [\<lparr>track_audio = True, track_firstsector = 0, track_lastsector = 1001\<rparr>]"

definition short_disc :: "track list" where
  "short_disc = [\<lparr>track_audio = False, track_firstsector = 0, track_lastsector = 99999\<rparr>,
                 \<lparr>track_audio = True, track_firstsector = 100000, track_lastsector = 100004\<rparr>,
                 \<lparr>track_audio = False, track_firstsector = 100005, track_lastsector = 150000\<rparr>]"

text \<open>
  A drive without a cache: every read returns what was asked for, after 20 ms.  A drive
  that answers every read within 1 ms.
\<close>

definition miss_drive :: drive where
  "miss_drive h = (case h of Read off n # _ \<Rightarrow> (n, 20) | _ \<Rightarrow> (0, 0))"

definition hit_drive :: drive where
  "hit_drive h = (case h of Read off n # _ \<Rightarrow> (n, 1) | _ \<Rightarrow> (0, 0))"

text \<open>
  A drive with a cache of \<open>c\<close> sectors: after a read of the sectors up to \<open>e\<close> the
  cache holds \<open>e-c, \<dots>, e-1\<close>, and a read served from it takes 1 ms, any other 20 ms.
  Then the same drive with a cache of 3 sectors, slow once on its second request.
\<close>

definition cache_drive :: "int \<Rightarrow> drive" where
  "cache_drive c h =
     (case h of
        Read off n # Read off2 n2 # _ \<Rightarrow>
          (n, if off2 + n2 - c \<le> off \<and> off + n \<le> off2 + n2 then 1 else 20)
      | Read off n # _ \<Rightarrow> (n, 20)
      | _ \<Rightarrow> (0, 0))"




definition fatal_once_drive :: drive where
  "fatal_once_drive h = (if length h = 1 then (-404, 20) else miss_drive h)"

definition fatal_late_drive :: drive where
  "fatal_late_drive h = (if length h = 38 then (-404, 20) else cache_drive 3 h)"

section \<open>The outcome of a round\<close>


text \<open>
  A round of the contiguity check, run from \<open>before\<close>, ends in \<open>after\<close> classified as
  \<open>hit\<close>: its last two requests are the single-sector read \<open>seekoff\<close> sectors past
  the test offset and then the single-sector read at the test offset, and \<open>hit\<close> says
  that the drive answered the latter in less than 9 ms.
\<close>

definition verify_outcome ::
  "drive \<Rightarrow> int \<Rightarrow> int \<Rightarrow> int \<Rightarrow> int \<times> dstate \<Rightarrow> int \<times> dstate \<Rightarrow> bool \<Rightarrow> bool" where
  "verify_outcome d lastsector current seekoff before after hit \<longleftrightarrow>
     verify_try d lastsector current seekoff 0 (fst before) (snd before) = (Inr hit, after) \<and>
     (\<exists>h. history (snd after) = Read (fst after) 1 # Read (fst after + seekoff) 1 # h) \<and>
     hit = (snd (d (history (snd after))) < 9)"

section \<open>The statistic in the words of the specification\<close>

text \<open>
  The samples after the trigger sample are pairs \<open>(latency, sectors)\<close>.  Every sector
  served by a sample counts with that sample's latency per sector: the mean and the
  population variance are taken over the sectors, the rejection bound is the mean plus
  the larger of 1 and twice the standard deviation, and the reported mean is the mean
  over the sectors of the samples at or below the bound.
\<close>

definition per_sector :: "int \<times> int \<Rightarrow> real" where
  "per_sector x = real_of_int (fst x) / real_of_int (snd x)"

definition spec_sectors :: "(int \<times> int) list \<Rightarrow> real" where
  "spec_sectors xs = (\<Sum>x\<leftarrow>xs. real_of_int (snd x))"

definition spec_mean :: "(int \<times> int) list \<Rightarrow> real" where
  "spec_mean xs = (\<Sum>x\<leftarrow>xs. real_of_int (snd x) * per_sector x) / spec_sectors xs"

definition spec_variance :: "(int \<times> int) list \<Rightarrow> real" where
  "spec_variance xs =
     (\<Sum>x\<leftarrow>xs. real_of_int (snd x) * (per_sector x - spec_mean xs)\<^sup>2) / spec_sectors xs"

definition spec_bound :: "(int \<times> int) list \<Rightarrow> real" where
  "spec_bound xs = spec_mean xs + max 1 (2 * sqrt (spec_variance xs))"


section \<open>Properties of the search\<close>

declare slow_fill.simps [simp del] search_try.simps [simp del] search_rounds.simps [simp del]
  search_loop.simps [simp del] verify_try.simps [simp del] verify_rounds.simps [simp del]

text \<open>Every request is recorded, and the answer is the drive's answer to the history.\<close>

lemma cdda_read_history: "cdda_read d s off n = (r, s') \<Longrightarrow> history s' = Read off n # history s"
  by (auto simp: cdda_read_def Let_def)

lemma cdda_read_result: "cdda_read d s off n = (r, s') \<Longrightarrow>
   r = fst (d (history s')) \<and> last_ms s' = snd (d (history s'))"
  by (auto simp: cdda_read_def Let_def)

lemma slow_fill_history: "slow_fill d off cur sofar r0 s = (r, s') \<Longrightarrow> \<exists>pre. history s' = pre @ history s"
proof (induction d off cur sofar r0 s rule: slow_fill.induct)
  case (1 d offset current sofar ret1 s)
  show ?case
  proof (cases "sofar < current")
    case False
    with "1.prems" show ?thesis by (simp add: slow_fill.simps)
  next
    case True
    obtain r1 s1 where rd: "cdda_read d s (offset + sofar) (current - sofar) = (r1, s1)"
      by (cases "cdda_read d s (offset + sofar) (current - sofar)")
    have h1: "history s1 = Read (offset + sofar) (current - sofar) # history s"
      using rd by (rule cdda_read_history)
    show ?thesis
    proof (cases "r1 \<le> 0")
      case True
      with \<open>sofar < current\<close> rd "1.prems" have "s' = s1" by (simp add: slow_fill.simps)
      with h1 show ?thesis by simp
    next
      case False
      with \<open>sofar < current\<close> rd "1.prems"
      have "slow_fill d offset current (sofar + r1) r1 s1 = (r, s')" by (simp add: slow_fill.simps)
      from "1.IH"[OF \<open>sofar < current\<close> refl rd[symmetric] False this]
      obtain pre where "history s' = pre @ history s1" by blast
      with h1 show ?thesis by simp
    qed
  qed
qed

lemma slow_fill_pos:
  assumes "\<forall>off n h. 0 < n \<longrightarrow> 0 < fst (d (Read off n # h))"
  shows "sofar < cur \<or> 0 < r0 \<Longrightarrow> 0 < fst (slow_fill d off cur sofar r0 s)"
  using assms
proof (induction d off cur sofar r0 s rule: slow_fill.induct)
  case (1 d offset current sofar ret1 s)
  show ?case
  proof (cases "sofar < current")
    case False
    with "1.prems" show ?thesis by (simp add: slow_fill.simps)
  next
    case True
    obtain r1 s1 where rd: "cdda_read d s (offset + sofar) (current - sofar) = (r1, s1)"
      by (cases "cdda_read d s (offset + sofar) (current - sofar)")
    have pos: "0 < r1" using rd "1.prems"(2) True by (auto simp: cdda_read_def Let_def)
    then have nle: "\<not> r1 \<le> 0" by simp
    have "0 < fst (slow_fill d offset current (sofar + r1) r1 s1)"
      using "1.IH"[OF True refl rd[symmetric] nle _ "1.prems"(2)] pos by simp
    then show ?thesis using True rd nle by (subst slow_fill.simps) simp
  qed
qed

lemma fill_read_history:
  assumes "fill_read d cur i off s = (r, s')"
  shows "\<exists>pre. history s' = pre @ history s \<and> (i = 5 \<longrightarrow> SpeedSet 1 \<in> set pre)"
proof (cases "5 \<le> i")
  case False
  with assms have "cdda_read d s (off + cur - 1) 1 = (r, s')" by (simp add: fill_read_def)
  from cdda_read_history[OF this] False show ?thesis by simp
next
  case True
  let ?s0 = "if i = 5 then cdda_speed_set s 1 else s"
  from True assms have "slow_fill d off cur 0 0 ?s0 = (r, s')" by (simp add: fill_read_def)
  from slow_fill_history[OF this] obtain pre where "history s' = pre @ history ?s0" by blast
  then show ?thesis by (cases "i = 5") (auto simp: cdda_speed_set_def)
qed

lemma fill_read_pos:
  assumes "\<forall>off n h. 0 < n \<longrightarrow> 0 < fst (d (Read off n # h))" and "0 < cur"
  shows "0 < fst (fill_read d cur i off s)"
  using assms slow_fill_pos[OF assms(1), of 0 cur 0 off]
  by (auto simp: fill_read_def cdda_read_def Let_def)




lemma mixed_disc_range: "find_range mixed_disc = (100000, 200000)"
  by (simp add: find_range_def mixed_disc_def)

lemma baseline_skipped:
  "offset < firstsector \<Longrightarrow> baseline_loop d firstsector current offset st s = (None, s)"
  by simp

lemma top_mixed:
  "paranoia_analyze_verify d cm mixed_disc = search_and_verify d cm 100000 200000 init_state"
  by (simp add: paranoia_analyze_verify_def mixed_disc_range)

lemma try_all_miss:
  assumes ok: "\<forall>off n h. 0 < n \<longrightarrow> 0 < fst (d (Read off n # h))" and slow: "\<forall>h. 9 \<le> snd (d (Read off 1 # h))"
  shows "\<exists>pre s'. search_try d ls 1 i j off s = (Inr False, off, s') \<and>
           history s' = pre @ history s \<and> (i = 5 \<longrightarrow> SpeedSet 1 \<in> set pre)"
proof -
  obtain ret1 s1 where f: "fill_read d 1 i off s = (ret1, s1)"
    by (cases "fill_read d 1 i off s")
  obtain ret2 s2 where r: "cdda_read d s1 off 1 = (ret2, s2)"
    by (cases "cdda_read d s1 off 1")
  from fill_read_history[OF f] obtain p1 where
    p1: "history s1 = p1 @ history s" "i = 5 \<longrightarrow> SpeedSet 1 \<in> set p1" by blast
  have h2: "history s2 = Read off 1 # history s1" using r by (rule cdda_read_history)
  have "0 < ret1" using fill_read_pos[OF ok, of 1 i off s] f by simp
  moreover have "0 < ret2" using cdda_read_result[OF r] h2 ok by simp
  moreover have "9 \<le> last_ms s2" using cdda_read_result[OF r] h2 slow by simp
  ultimately have "search_try d ls 1 i j off s = (Inr False, off, s2)"
    using f r by (simp add: search_try.simps[of d ls 1 i j off s] cdda_milliseconds_def)
  with p1 h2 show ?thesis by simp
qed

lemma rounds_all_miss:
  assumes ok: "\<forall>off n h. 0 < n \<longrightarrow> 0 < fst (d (Read off n # h))" and slow: "\<forall>h. 9 \<le> snd (d (Read off 1 # h))"
  shows "i \<le> 15 \<Longrightarrow> \<exists>pre s'. search_rounds d ls 1 i off s = (Inr False, 15, off, s') \<and>
           history s' = pre @ history s \<and> (i \<le> 5 \<longrightarrow> SpeedSet 1 \<in> set pre)"
proof (induction "15 - i" arbitrary: i s)
  case 0
  then have "i = 15" by simp
  then show ?case by (simp add: search_rounds.simps)
next
  case (Suc k)
  then have lt: "i < 15" and k: "k = 15 - Suc i" and le: "Suc i \<le> 15" by simp_all
  from try_all_miss[OF ok slow, of ls i 0 s] obtain p1 s1 where
    t: "search_try d ls 1 i 0 off s = (Inr False, off, s1)" and
    h1: "history s1 = p1 @ history s" "i = 5 \<longrightarrow> SpeedSet 1 \<in> set p1" by blast
  from Suc.hyps(1)[OF k le, of s1] obtain p2 s2 where
    r: "search_rounds d ls 1 (Suc i) off s1 = (Inr False, 15, off, s2)" and
    h2: "history s2 = p2 @ history s1" "Suc i \<le> 5 \<longrightarrow> SpeedSet 1 \<in> set p2" by blast
  have "search_rounds d ls 1 i off s = (Inr False, 15, off, s2)"
    using lt t r by (simp add: search_rounds.simps[of d ls 1 i off s])
  moreover have "history s2 = (p2 @ p1) @ history s" using h1 h2 by simp
  moreover have "i \<le> 5 \<longrightarrow> SpeedSet 1 \<in> set (p2 @ p1)" using h1(2) h2(2) by (cases "i = 5") auto
  ultimately show ?case by blast
qed

text \<open>
  C2 (amended).  In a session where every read succeeds and every single-sector read at
  the test offset takes at least 9 ms, the search stops at \<open>current = 1\<close> and the
  probe reports that the drive does not cache (return code 0).  All 15 rounds of
  \<open>current = 1\<close> are run, so the slow-confirmation branch of rounds 5 to 14 is
  entered: the request to reduce the speed is in the history.
\<close>

theorem no_cache_session:
  assumes "\<forall>off n h. 0 < n \<longrightarrow> 0 < fst (d (Read off n # h))" and "\<forall>h. 9 \<le> snd (d (Read firstsector 1 # h))"
  shows "fst (search_and_verify d cachemodel firstsector lastsector s) = NoCache \<and>
         return_code (fst (search_and_verify d cachemodel firstsector lastsector s)) = Some 0 \<and>
         (\<exists>s'. search_rounds d lastsector 1 0 firstsector s = (Inr False, 15, firstsector, s')) \<and>
         SpeedSet 1 \<in> set (history (snd (search_and_verify d cachemodel firstsector lastsector s)))"
proof -
  from rounds_all_miss[OF assms, of 0 lastsector s] obtain pre s' where
    r: "search_rounds d lastsector 1 0 firstsector s = (Inr False, 15, firstsector, s')" and
    h: "history s' = pre @ history s" "SpeedSet 1 \<in> set pre" by auto
  have "search_loop d lastsector 0 True firstsector s = (Inr (1, False), firstsector, s')"
    using r by (simp add: search_loop.simps[of d lastsector 0] search_loop.simps[of d lastsector 1] hi_def)
  then have "search_and_verify d cachemodel firstsector lastsector s = (NoCache, s')"
    by (simp add: search_and_verify_def classify_verify_def hi_def)
  with r h show ?thesis by auto
qed

theorem no_cache_session_witness:
  "fst (search_and_verify miss_drive 1200 100000 200000 init_state) = NoCache \<and>
   SpeedSet 1 \<in> set (history (snd (search_and_verify miss_drive 1200 100000 200000 init_state)))"
proof -
  show ?thesis
    using no_cache_session[of miss_drive 100000 1200 200000 init_state]
    by (simp add: miss_drive_def)
qed

text \<open>
  C2 as stated fails: on the drive without a cache the probe returns the no-cache exit
  and has asked for the reduced speed, which only the slow-confirmation branch does.
\<close>

theorem slow_branch_entered_without_cache:
  "fst (paranoia_analyze_verify miss_drive 1200 mixed_disc) = NoCache \<and>
   SpeedSet 1 \<in> set (history (snd (paranoia_analyze_verify miss_drive 1200 mixed_disc)))"
  unfolding top_mixed by code_simp









lemma slow_fill_at_once:
  assumes "0 < L" and "fst (d (Read off L # history s)) = L"
  shows "slow_fill d off L 0 0 s = cdda_read d s off L"
proof -
  obtain r s1 where rd: "cdda_read d s off L = (r, s1)" by (cases "cdda_read d s off L")
  then have "r = L" using assms(2) by (auto simp: cdda_read_def Let_def)
  then show ?thesis using assms(1) rd
    by (simp add: slow_fill.simps[of d off L 0] slow_fill.simps[of d off L L])
qed

lemma cache_drive_fst: "fst (cache_drive c (Read off n # h)) = n"
  by (simp add: cache_drive_def split: list.splits request.splits)

lemma cache_drive_snd:
  "snd (cache_drive c (Read off n # Read off2 n2 # h)) =
     (if off2 + n2 - c \<le> off \<and> off + n \<le> off2 + n2 then 1 else 20)"
  by (simp add: cache_drive_def)

lemma cache_try:
  assumes "0 < L"
  shows "\<exists>s'. search_try (cache_drive c) ls L i j off s = (Inr (L \<le> c), off, s')"
proof (cases "5 \<le> i")
  case False
  then show ?thesis using assms
    by (simp add: search_try.simps[of _ ls L i j off s] fill_read_def cdda_read_def Let_def
        cache_drive_fst cache_drive_snd cdda_milliseconds_def)
next
  case True
  let ?s0 = "if i = 5 then cdda_speed_set s 1 else s"
  have "fst (cache_drive c (Read off L # history ?s0)) = L"
    by (rule cache_drive_fst)
  from slow_fill_at_once[of L "cache_drive c" off ?s0, OF assms this] True
  have f: "fill_read (cache_drive c) L i off s = cdda_read (cache_drive c) ?s0 off L"
    by (simp add: fill_read_def)
  show ?thesis using assms
    by (simp add: search_try.simps[of _ ls L i j off s] f cdda_read_def Let_def
        cache_drive_fst cache_drive_snd cdda_milliseconds_def)
qed


text \<open>The search on the drive with a cache of \<open>c\<close> sectors finds the size \<open>c\<close>.\<close>

lemma cache_rounds_hit:
  assumes "0 < L" and "L \<le> c"
  shows "\<exists>s'. search_rounds (cache_drive c) ls L 0 off s = (Inr True, 1, off, s')"
proof -
  from cache_try[OF assms(1), of c ls 0 0 off s] assms(2) obtain s' where
    "search_try (cache_drive c) ls L 0 0 off s = (Inr True, off, s')" by auto
  then show ?thesis by (simp add: search_rounds.simps[of _ ls L 0 off s])
qed

lemma cache_rounds_miss:
  assumes "0 < L" and "c < L"
  shows "i \<le> 15 \<Longrightarrow> \<exists>s'. search_rounds (cache_drive c) ls L i off s = (Inr False, 15, off, s')"
proof (induction "15 - i" arbitrary: i s)
  case 0
  then show ?case by (simp add: search_rounds.simps)
next
  case (Suc k)
  then have lt: "i < 15" and k: "k = 15 - Suc i" and le: "Suc i \<le> 15" by simp_all
  from cache_try[OF assms(1), of c ls i 0 off s] assms(2) obtain s1 where
    t: "search_try (cache_drive c) ls L i 0 off s = (Inr False, off, s1)" by auto
  from Suc.hyps(1)[OF k le, of s1] obtain s2 where
    "search_rounds (cache_drive c) ls L (Suc i) off s1 = (Inr False, 15, off, s2)" by blast
  with lt t show ?case by (simp add: search_rounds.simps[of _ ls L i off s])
qed

lemma cache_search:
  assumes "c \<le> hi"
  shows "0 \<le> cur \<Longrightarrow> cur \<le> c \<Longrightarrow>
     \<exists>s'. search_loop (cache_drive c) ls cur True off s = (Inr (c + 1, False), off, s')"
proof (induction "nat (c - cur)" arbitrary: cur s)
  case 0
  then have "cur = c" by simp
  from cache_rounds_miss[of "c + 1" c 0 ls off s] \<open>0 \<le> cur\<close> \<open>cur = c\<close> obtain s1 where
    "search_rounds (cache_drive c) ls (c + 1) 0 off s = (Inr False, 15, off, s1)" by auto
  then show ?case using \<open>cur = c\<close> assms
    by (simp add: search_loop.simps[of _ ls c True off s] search_loop.simps[of _ ls "c + 1" False])
next
  case (Suc k)
  then have lt: "cur < c" and k: "k = nat (c - (cur + 1))" by simp_all
  from cache_rounds_hit[of "cur + 1" c ls off s] lt \<open>0 \<le> cur\<close> obtain s1 where
    r: "search_rounds (cache_drive c) ls (cur + 1) 0 off s = (Inr True, 1, off, s1)" by auto
  from Suc.hyps(1)[OF k, of s1] lt \<open>0 \<le> cur\<close> obtain s2 where
    "search_loop (cache_drive c) ls (cur + 1) True off s1 = (Inr (c + 1, False), off, s2)" by auto
  with r lt assms show ?case by (simp add: search_loop.simps[of _ ls cur True off s])
qed

lemma try_all_hit:
  assumes ok: "\<forall>off n h. 0 < n \<longrightarrow> 0 < fst (d (Read off n # h))"
    and fast: "\<forall>h. snd (d (Read off 1 # h)) < 9 \<and> snd (d (Read off 1 # h)) \<noteq> -1"
    and "0 < cur"
  shows "\<exists>s'. search_try d ls cur i j off s = (Inr True, off, s')"
proof -
  obtain ret1 s1 where f: "fill_read d cur i off s = (ret1, s1)"
    by (cases "fill_read d cur i off s")
  obtain ret2 s2 where r: "cdda_read d s1 off 1 = (ret2, s2)"
    by (cases "cdda_read d s1 off 1")
  have h2: "history s2 = Read off 1 # history s1" using r by (rule cdda_read_history)
  have "0 < ret1" using fill_read_pos[OF ok \<open>0 < cur\<close>, of i off s] f by simp
  moreover have "0 < ret2" using cdda_read_result[OF r] h2 ok by simp
  moreover have "last_ms s2 < 9 \<and> last_ms s2 \<noteq> -1" using cdda_read_result[OF r] h2 fast by simp
  ultimately have "search_try d ls cur i j off s = (Inr True, off, s2)"
    using f r by (simp add: search_try.simps[of d ls cur i j off s] cdda_milliseconds_def)
  then show ?thesis by blast
qed

lemma search_all_hit:
  assumes ok: "\<forall>off n h. 0 < n \<longrightarrow> 0 < fst (d (Read off n # h))"
    and fast: "\<forall>h. snd (d (Read off 1 # h)) < 9 \<and> snd (d (Read off 1 # h)) \<noteq> -1"
  shows "0 \<le> cur \<Longrightarrow> cur \<le> hi \<Longrightarrow>
     \<exists>s'. search_loop d ls cur True off s = (Inr (hi + 1, True), off, s')"
proof (induction "nat (hi - cur)" arbitrary: cur s)
  case 0
  then have c: "cur = hi" by simp
  from try_all_hit[OF ok fast, of "hi + 1" ls 0 0 s] \<open>0 \<le> cur\<close> c obtain s1 where
    "search_try d ls (hi + 1) 0 0 off s = (Inr True, off, s1)" by auto
  then have "search_rounds d ls (hi + 1) 0 off s = (Inr True, 1, off, s1)"
    by (simp add: search_rounds.simps[of _ ls "hi + 1" 0 off s])
  then show ?case using c
    by (simp add: search_loop.simps[of _ ls hi True off s] search_loop.simps[of _ ls "hi + 1" True])
next
  case (Suc k)
  then have lt: "cur < hi" and k: "k = nat (hi - (cur + 1))" by simp_all
  from try_all_hit[OF ok fast, of "cur + 1" ls 0 0 s] \<open>0 \<le> cur\<close> obtain s1 where
    "search_try d ls (cur + 1) 0 0 off s = (Inr True, off, s1)" by auto
  then have r: "search_rounds d ls (cur + 1) 0 off s = (Inr True, 1, off, s1)"
    by (simp add: search_rounds.simps[of _ ls "cur + 1" 0 off s])
  from Suc.hyps(1)[OF k, of s1] lt \<open>0 \<le> cur\<close> obtain s2 where
    "search_loop d ls (cur + 1) True off s1 = (Inr (hi + 1, True), off, s2)" by auto
  with r lt show ?case by (simp add: search_loop.simps[of _ ls cur True off s])
qed

text \<open>
  C4.  The test after the loop is \<open>current==hi\<close>, while the loop is left above the
  ceiling with \<open>current = hi + 1\<close>.  On a drive that always hits, the probe therefore
  does not give the cannot-determine exit: it reports a cache of 15000 sectors and goes
  on to the contiguity check.  On a drive with a cache of 14999 sectors the boundary is
  found at \<open>current = 15000\<close>, and the probe gives the cannot-determine exit instead of
  the size 14999.
\<close>

theorem ceiling_misclassified:
  "fst (paranoia_analyze_verify hit_drive 1200 mixed_disc) = Finished 15001 True True \<and>
   fst (paranoia_analyze_verify (cache_drive 14999) 1200 mixed_disc) = CannotDetermine"
proof -
  have ok: "\<forall>off n h. 0 < n \<longrightarrow> 0 < fst (hit_drive (Read off n # h))"
    by (simp add: hit_drive_def)
  have fast: "\<forall>h. snd (hit_drive (Read 100000 1 # h)) < 9 \<and> snd (hit_drive (Read 100000 1 # h)) \<noteq> -1"
    by (simp add: hit_drive_def)
  from search_all_hit[OF ok fast, of 0 200000 init_state] obtain s1 where
    s1: "search_loop hit_drive 200000 0 True 100000 init_state = (Inr (15001, True), 100000, s1)"
    by (auto simp: hi_def)
  have v: "verify_try hit_drive 200000 15001 45003 0 100000 s1 =
             (Inr True, 100000, snd (cdda_read hit_drive (snd (cdda_read hit_drive s1 145003 1)) 100000 1))"
    by (simp add: verify_try.simps[of _ 200000 15001 45003 0 100000 s1] cdda_read_def Let_def
        hit_drive_def cdda_milliseconds_def)
  have a: "fst (search_and_verify hit_drive 1200 100000 200000 init_state) = Finished 15001 True True"
    by (simp add: search_and_verify_def s1 classify_verify_def hi_def
        verify_rounds.simps[of _ 200000 15001 45003 0] v)
  from cache_search[of 14999 0 200000 100000 init_state] obtain s2 where
    "search_loop (cache_drive 14999) 200000 0 True 100000 init_state = (Inr (15000, False), 100000, s2)"
    by (auto simp: hi_def)
  then have b: "fst (search_and_verify (cache_drive 14999) 1200 100000 200000 init_state) = CannotDetermine"
    by (simp add: search_and_verify_def classify_verify_def hi_def)
  from a b show ?thesis by (simp add: top_mixed)
qed

section \<open>Properties of the contiguity check\<close>

lemma verify_try_post:
  "verify_try d ls cur seekoff j off s = (res, off', s') \<Longrightarrow>
     (\<exists>pre. history s' = pre @ history s) \<and>
     (case res of
        Inr u \<Rightarrow> u = (last_ms s' < 9) \<and> last_ms s' \<noteq> -1
      | Inl e \<Rightarrow> e = VerifyOutOfSpace \<or> e = VerifyTooManyErrors \<or>
                 (e = VerifyTimingError \<and> last_ms s' = -1)) \<and>
     (res \<noteq> Inl VerifyTooManyErrors \<longrightarrow> res \<noteq> Inl VerifyOutOfSpace \<longrightarrow>
        (\<exists>h. history s' = Read off' 1 # Read (off' + seekoff) 1 # h) \<and>
        last_ms s' = snd (d (history s')) \<and> 0 < fst (d (history s')))"
proof (induction d ls cur seekoff j off s rule: verify_try.induct)
  case (1 d lastsector current seekoff j offset s)
  show ?case
  proof (cases "offset + seekoff > lastsector")
    case True
    with "1.prems" show ?thesis
      by (auto simp: verify_try.simps[of d lastsector current seekoff j offset s])
  next
    case space: False
    obtain ret1 s1 where f: "cdda_read d s (offset + seekoff) 1 = (ret1, s1)"
      by (cases "cdda_read d s (offset + seekoff) 1")
    obtain ret2 s2 where r: "cdda_read d s1 offset 1 = (ret2, s2)"
      by (cases "cdda_read d s1 offset 1")
    have h1: "history s1 = Read (offset + seekoff) 1 # history s" using f by (rule cdda_read_history)
    have h2: "history s2 = Read offset 1 # history s1" using r by (rule cdda_read_history)
    note r2 = cdda_read_result[OF r]
    show ?thesis
    proof (cases "ret1 \<le> 0 \<or> ret2 \<le> 0")
      case True
      show ?thesis
      proof (cases "10 \<le> j")
        case True
        with \<open>ret1 \<le> 0 \<or> ret2 \<le> 0\<close> space f r "1.prems"
        have "res = Inl VerifyTooManyErrors" "s' = s2"
          by (auto simp: verify_try.simps[of d lastsector current seekoff j offset s] Let_def)
        with h1 h2 show ?thesis by simp
      next
        case False
        with \<open>ret1 \<le> 0 \<or> ret2 \<le> 0\<close> space f r "1.prems"
        have rec: "verify_try d lastsector current seekoff (Suc j) (offset + (current + 100)) s2
                     = (res, off', s')"
          by (auto simp: verify_try.simps[of d lastsector current seekoff j offset s] Let_def)
        from "1.IH"[OF space f[symmetric] refl r[symmetric] refl \<open>ret1 \<le> 0 \<or> ret2 \<le> 0\<close> refl False rec]
        show ?thesis using h1 h2 by auto
      qed
    next
      case False
      with space f r "1.prems"
      have res: "res = (if cdda_milliseconds s2 = -1 then Inl VerifyTimingError
           else Inr (cdda_milliseconds s2 < 9))" and "off' = offset" "s' = s2"
        by (auto simp: verify_try.simps[of d lastsector current seekoff j offset s] Let_def
            split: if_splits)
      with h1 h2 r2 False show ?thesis by (auto simp: cdda_milliseconds_def)
    qed
  qed
qed

lemma verify_rounds_post:
  "verify_rounds d ls cur seekoff i off s = (res, i', off', s') \<Longrightarrow> i \<le> 30 \<Longrightarrow>
     (\<exists>pre. history s' = pre @ history s) \<and>
     (case res of
        Inr u \<Rightarrow> if u then i < i' \<and> i' \<le> 30 \<and> last_ms s' < 9 \<and> last_ms s' \<noteq> -1
                 else i' = 30 \<and> (i < 30 \<longrightarrow> \<not> last_ms s' < 9 \<and> last_ms s' \<noteq> -1)
      | Inl e \<Rightarrow> i' < 30 \<and> (e = VerifyOutOfSpace \<or> e = VerifyTooManyErrors \<or>
                 (e = VerifyTimingError \<and> last_ms s' = -1))) \<and>
     (res \<noteq> Inl VerifyTooManyErrors \<longrightarrow> res \<noteq> Inl VerifyOutOfSpace \<longrightarrow> i < 30 \<longrightarrow>
        (\<exists>h. history s' = Read off' 1 # Read (off' + seekoff) 1 # h) \<and>
        last_ms s' = snd (d (history s')) \<and> 0 < fst (d (history s')))"
proof (induction d ls cur seekoff i off s rule: verify_rounds.induct)
  case (1 d lastsector current seekoff i offset s)
  show ?case
  proof (cases "i < 30")
    case False
    with "1.prems" show ?thesis by (auto simp: verify_rounds.simps)
  next
    case True
    obtain r1 o1 s1 where t: "verify_try d lastsector current seekoff 0 offset s = (r1, o1, s1)"
      by (cases "verify_try d lastsector current seekoff 0 offset s")
    note tp = verify_try_post[OF t]
    show ?thesis
    proof (cases r1)
      case (Inl e)
      with True t "1.prems" have "res = Inl e" "i' = i" "off' = o1" "s' = s1"
        by (simp_all add: verify_rounds.simps[of d lastsector current seekoff i offset s])
      with tp Inl True show ?thesis by auto
    next
      case (Inr u)
      show ?thesis
      proof (cases u)
        case True
        with Inr \<open>i < 30\<close> t "1.prems" have "res = Inr True" "i' = Suc i" "off' = o1" "s' = s1"
          by (simp_all add: verify_rounds.simps[of d lastsector current seekoff i offset s])
        with tp Inr True \<open>i < 30\<close> show ?thesis by auto
      next
        case False
        with Inr \<open>i < 30\<close> t "1.prems"
        have rec: "verify_rounds d lastsector current seekoff (Suc i) o1 s1 = (res, i', off', s')"
          by (simp add: verify_rounds.simps[of d lastsector current seekoff i offset s])
        have le: "Suc i \<le> 30" using \<open>i < 30\<close> by simp
        from Inr False have r1: "r1 = Inr False" by simp
        have nb: "\<not> False" by simp
        note ih = "1.IH"[OF \<open>i < 30\<close> t[symmetric] r1 refl nb rec le]
        show ?thesis
        proof (cases "Suc i < 30")
          case True
          with ih tp show ?thesis by (auto split: sum.splits if_splits)
        next
          case False
          with rec have "res = Inr False" "i' = Suc i" "off' = o1" "s' = s1"
            by (simp_all add: verify_rounds.simps[of d lastsector current seekoff "Suc i" o1 s1])
          with tp r1 False \<open>i < 30\<close> show ?thesis by auto
        qed
      qed
    qed
  qed
qed

lemma verify_rounds_chain:
  "verify_rounds d ls cur seekoff i off s = (Inr u, i', off', s') \<Longrightarrow> i \<le> 30 \<Longrightarrow>
     \<exists>ss. length ss = Suc (i' - i) \<and> i \<le> i' \<and> hd ss = (off, s) \<and> last ss = (off', s') \<and>
       (\<forall>k. i \<le> k \<and> k < i' \<longrightarrow>
          verify_outcome d ls cur seekoff (ss ! (k - i)) (ss ! (Suc k - i)) (u \<and> Suc k = i'))"
proof (induction d ls cur seekoff i off s rule: verify_rounds.induct)
  case (1 d lastsector current seekoff i offset s)
  show ?case
  proof (cases "i < 30")
    case False
    with "1.prems" have "i' = i" "off' = offset" "s' = s"
      by (auto simp: verify_rounds.simps[of d lastsector current seekoff i offset s])
    then show ?thesis by (intro exI[of _ "[(offset, s)]"]) auto
  next
    case True
    obtain r1 o1 s1 where t: "verify_try d lastsector current seekoff 0 offset s = (r1, o1, s1)"
      by (cases "verify_try d lastsector current seekoff 0 offset s")
    note tp = verify_try_post[OF t]
    from True t "1.prems" obtain h where r1: "r1 = Inr h"
      by (cases r1) (auto simp: verify_rounds.simps[of d lastsector current seekoff i offset s])
    from tp r1 have ro: "verify_outcome d lastsector current seekoff (offset, s) (o1, s1) h"
      using t by (auto simp: verify_outcome_def)
    show ?thesis
    proof (cases h)
      case True
      with r1 \<open>i < 30\<close> t "1.prems" have e: "u" "i' = Suc i" "off' = o1" "s' = s1"
        by (simp_all add: verify_rounds.simps[of d lastsector current seekoff i offset s])
      have "\<forall>k. i \<le> k \<and> k < i' \<longrightarrow>
              verify_outcome d lastsector current seekoff ([(offset, s), (o1, s1)] ! (k - i))
                ([(offset, s), (o1, s1)] ! (Suc k - i)) (u \<and> Suc k = i')"
      proof (intro allI impI)
        fix k assume "i \<le> k \<and> k < i'"
        with e have "k = i" by simp
        with ro True e show "verify_outcome d lastsector current seekoff
                ([(offset, s), (o1, s1)] ! (k - i))
                ([(offset, s), (o1, s1)] ! (Suc k - i)) (u \<and> Suc k = i')" by simp
      qed
      with e show ?thesis by (intro exI[of _ "[(offset, s), (o1, s1)]"]) simp
    next
      case False
      with r1 \<open>i < 30\<close> t "1.prems"
      have rec: "verify_rounds d lastsector current seekoff (Suc i) o1 s1 = (Inr u, i', off', s')"
        by (simp add: verify_rounds.simps[of d lastsector current seekoff i offset s])
      have le: "Suc i \<le> 30" using \<open>i < 30\<close> by simp
      from r1 False have r1': "r1 = Inr False" by simp
      have nb: "\<not> False" by simp
      from "1.IH"[OF \<open>i < 30\<close> t[symmetric] r1' refl nb rec le] obtain ss where
        ss: "length ss = Suc (i' - Suc i)" "Suc i \<le> i'" "hd ss = (o1, s1)" "last ss = (off', s')"
          "\<forall>k. Suc i \<le> k \<and> k < i' \<longrightarrow>
             verify_outcome d lastsector current seekoff (ss ! (k - Suc i)) (ss ! (Suc k - Suc i))
               (u \<and> Suc k = i')"
        by blast
      from verify_rounds_post[OF rec le] have far: "u \<longrightarrow> Suc i < i'" by (auto split: if_splits)
      from ss(1) have ne: "ss \<noteq> []" by auto
      then have ss0: "ss ! 0 = (o1, s1)" using ss(3) by (simp add: hd_conv_nth)
      let ?ss = "(offset, s) # ss"
      have "\<forall>k. i \<le> k \<and> k < i' \<longrightarrow>
              verify_outcome d lastsector current seekoff (?ss ! (k - i)) (?ss ! (Suc k - i))
                (u \<and> Suc k = i')"
      proof (intro allI impI)
        fix k assume k: "i \<le> k \<and> k < i'"
        show "verify_outcome d lastsector current seekoff (?ss ! (k - i)) (?ss ! (Suc k - i))
                (u \<and> Suc k = i')"
        proof (cases "k = i")
          case True
          with far have "(u \<and> Suc k = i') = h" using \<open>\<not> h\<close> by auto
          with ro True ss0 show ?thesis by simp
        next
          case False
          with k have k': "Suc i \<le> k \<and> k < i'" by simp
          then have "k - i = Suc (k - Suc i)" "Suc k - i = Suc (Suc k - Suc i)" by auto
          with ss(5)[rule_format, OF k'] show ?thesis by simp
        qed
      qed
      moreover have "length ?ss = Suc (i' - i)" using ss(1,2) by simp
      moreover have "last ?ss = (off', s')" using ss(4) ne by simp
      ultimately show ?thesis using ss(2) by (intro exI[of _ ?ss]) simp
    qed
  qed
qed


text \<open>
  C8 (amended).  When the probe gets through the contiguity check for a cache of \<open>S\<close>
  sectors (\<open>current = S + 1\<close>), it has run at most 30 rounds, each reading the sector
  \<open>3 * (S + 1)\<close> past the test offset and then the test offset again.  Every round
  but the last one was a miss; the last one is a hit exactly when the cache is reported as
  non-contiguous, and then the return code is 1; without a hit all 30 rounds were run.
\<close>

theorem contiguity_check:
  assumes "classify_verify d cachemodel lastsector (S + 1) offset s = (Finished c x nc, s')"
  shows "c = S + 1 \<and> 0 < S \<and> x = (S > cachemodel) \<and>
    (\<exists>i' ss. (if nc then 0 < i' \<and> i' \<le> 30 else i' = 30) \<and>
       length ss = Suc i' \<and> hd ss = (offset, s) \<and> snd (last ss) = s' \<and>
       (\<forall>k<i'. verify_outcome d lastsector (S + 1) (3 * S + 3) (ss ! k) (ss ! Suc k)
                  (nc \<and> Suc k = i'))) \<and>
    (nc \<longrightarrow> return_code (Finished c x nc) = Some 1)"
proof -
  have so: "(S + 1) * 3 = 3 * S + 3" by simp
  from assms have S: "0 < S" "S + 1 \<noteq> hi"
    by (auto simp: classify_verify_def split: if_splits)
  obtain r i' o1 s1 where vr0: "verify_rounds d lastsector (S + 1) ((S + 1) * 3) 0 offset s = (r, i', o1, s1)"
    by (cases "verify_rounds d lastsector (S + 1) ((S + 1) * 3) 0 offset s") auto
  have "\<And>e. r = Inl e \<Longrightarrow> e \<noteq> Finished c x nc"
    using verify_rounds_post[OF vr0] by auto
  with vr0 assms S have e: "r = Inr nc" "c = S + 1" "x = (S > cachemodel)" "s1 = s'"
    by (auto simp: classify_verify_def Let_def split: sum.splits)
  note vr = vr0[unfolded so]
  from verify_rounds_post[OF vr] e have i': "if nc then 0 < i' \<and> i' \<le> 30 else i' = 30"
    by (auto split: if_splits)
  from verify_rounds_chain[OF vr[unfolded e(1)]] obtain ss where
    ss: "length ss = Suc i'" "hd ss = (offset, s)" "last ss = (o1, s1)"
      "\<forall>k<i'. verify_outcome d lastsector (S + 1) (3 * S + 3) (ss ! k) (ss ! Suc k) (nc \<and> Suc k = i')"
    by auto
  have "\<exists>i' ss. (if nc then 0 < i' \<and> i' \<le> 30 else i' = 30) \<and>
       length ss = Suc i' \<and> hd ss = (offset, s) \<and> snd (last ss) = s' \<and>
       (\<forall>k<i'. verify_outcome d lastsector (S + 1) (3 * S + 3) (ss ! k) (ss ! Suc k)
                  (nc \<and> Suc k = i'))"
    using i' ss e(4) by (intro exI[of _ i'] exI[of _ ss]) simp
  with e S show ?thesis by simp
qed



lemma cache3_classify:
  "fst (classify_verify (cache_drive 3) 1200 200000 (3 + 1) 100000 init_state) = Finished 4 False False"
  by code_simp

text \<open>
  C8 as stated fails: for the cache of 3 sectors the far read is at \<open>offset + 12\<close>, and
  no read is made at \<open>offset + 9\<close>.
\<close>

theorem far_offset_is_not_three_times_the_size:
  "fst (paranoia_analyze_verify (cache_drive 3) 1200 mixed_disc) = Finished 4 False False \<and>
   Read (100000 + 3 * 3) 1 \<notin> set (history (snd (paranoia_analyze_verify (cache_drive 3) 1200 mixed_disc))) \<and>
   Read (100000 + 3 * 4) 1 \<in> set (history (snd (paranoia_analyze_verify (cache_drive 3) 1200 mixed_disc)))"
  unfolding top_mixed by code_simp


theorem contiguity_check_witness:
  "fst (classify_verify (cache_drive 3) 1200 200000 (3 + 1) 100000 init_state) = Finished 4 False False \<and>
   (\<exists>ss. length ss = 31 \<and> hd ss = (100000, init_state) \<and>
      verify_outcome (cache_drive 3) 200000 4 12 (ss ! 0) (ss ! 1) False)"
proof -
  let ?R = "classify_verify (cache_drive 3) 1200 200000 (3 + 1) 100000 init_state"
  have r: "?R = (Finished 4 False False, snd ?R)"
    using cache3_classify by (cases ?R) auto
  have "\<exists>i' ss. i' = 30 \<and> length ss = Suc i' \<and> hd ss = (100000, init_state) \<and>
          snd (last ss) = snd ?R \<and>
          (\<forall>k<i'. verify_outcome (cache_drive 3) 200000 (3 + 1) (3 * 3 + 3) (ss ! k) (ss ! Suc k)
                     (False \<and> Suc k = i'))"
    using contiguity_check[OF r] by simp
  then obtain ss where l: "length ss = 31" and h: "hd ss = (100000, init_state)" and
    a: "\<forall>k<30::nat. verify_outcome (cache_drive 3) 200000 (3 + 1) (3 * 3 + 3) (ss ! k) (ss ! Suc k) False"
    by auto
  from a have "verify_outcome (cache_drive 3) 200000 (3 + 1) (3 * 3 + 3) (ss ! 0) (ss ! Suc 0) False"
    by simp
  then have "verify_outcome (cache_drive 3) 200000 4 12 (ss ! 0) (ss ! 1) False" by simp
  with l h cache3_classify show ?thesis by blast
qed

section \<open>Exits and return code\<close>

declare sample_loop.simps [simp del] baseline_loop.simps [simp del]







text \<open>The baseline sampler on the small disc, evaluated.\<close>

lemma small_disc_range: "find_range small_disc = (0, 1001)"
  by (simp add: find_range_def small_disc_def)








lemma top_small:
  "paranoia_analyze_verify d cm small_disc =
     (case baseline_loop d 0 1000 0 (0, 0, False) init_state of
        (Some e, s) \<Rightarrow> (e, s)
      | (None, s) \<Rightarrow> search_and_verify d cm 0 1001 s)"
  by (simp add: paranoia_analyze_verify_def small_disc_range)









text \<open>
  C7.  The device-fatal code \<open>-404\<close> on the first read of the search is handled like
  any failed read: the test offset moves by 101 sectors and the probe runs on to the
  no-cache exit.  On the first read of the contiguity check it moves the test offset by
  104 sectors, and the probe finishes with a cache of 3 sectors and return code 0.  The
  same answer to the first read of the baseline sampler aborts the probe.
\<close>

theorem device_fatal_retried_in_search:
  "fst (fatal_once_drive [Read 100000 1]) = -404 \<and>
   fst (paranoia_analyze_verify fatal_once_drive 1200 mixed_disc) = NoCache \<and>
   Read 100101 1 \<in> set (history (snd (paranoia_analyze_verify fatal_once_drive 1200 mixed_disc))) \<and>
   38 < length (history (snd (paranoia_analyze_verify fatal_late_drive 1200 mixed_disc))) \<and>
   fst (paranoia_analyze_verify fatal_late_drive 1200 mixed_disc) = Finished 4 False False \<and>
   Read 100104 1 \<in> set (history (snd (paranoia_analyze_verify fatal_late_drive 1200 mixed_disc))) \<and>
   fst (fatal_once_drive [Read 1001 1]) = -404 \<and>
   fst (paranoia_analyze_verify fatal_once_drive 1200 small_disc) = DeviceFatalSetup"
proof -
  have a: "fst (fatal_once_drive [Read 100000 1]) = -404 \<and> fst (fatal_once_drive [Read 1001 1]) = -404"
    by (simp add: fatal_once_drive_def)
  have b: "fst (paranoia_analyze_verify fatal_once_drive 1200 mixed_disc) = NoCache \<and>
   Read 100101 1 \<in> set (history (snd (paranoia_analyze_verify fatal_once_drive 1200 mixed_disc)))"
    unfolding top_mixed by code_simp
  have c: "38 < length (history (snd (paranoia_analyze_verify fatal_late_drive 1200 mixed_disc))) \<and>
   fst (paranoia_analyze_verify fatal_late_drive 1200 mixed_disc) = Finished 4 False False \<and>
   Read 100104 1 \<in> set (history (snd (paranoia_analyze_verify fatal_late_drive 1200 mixed_disc)))"
    unfolding top_mixed by code_simp
  have "baseline_step fatal_once_drive 1000 0 (0, 0, False) init_state =
          (Inl DeviceFatalSetup, \<lparr>history = [Read 1001 1], last_ms = 20\<rparr>)"
    by (simp add: baseline_step_def cdda_read_def Let_def init_state_def fatal_once_drive_def)
  then have d: "fst (paranoia_analyze_verify fatal_once_drive 1200 small_disc) = DeviceFatalSetup"
    by (simp add: top_small baseline_loop.simps[of _ 0 1000 0])
  from a b c d show ?thesis by blast
qed

section \<open>Range of the reads\<close>

text \<open>The contiguity check keeps its reads between the test offset and \<open>lastsector\<close>.\<close>

lemma verify_reads_in_range:
  "verify_try d ls cur seekoff j off s = (res, off', s') \<Longrightarrow> 0 \<le> seekoff \<Longrightarrow> 0 \<le> cur + 100 \<Longrightarrow>
     \<forall>r \<in> set (history s'). r \<in> set (history s) \<or> (\<exists>x. r = Read x 1 \<and> off \<le> x \<and> x \<le> ls)"
proof (induction d ls cur seekoff j off s rule: verify_try.induct)
  case (1 d lastsector current seekoff j offset s)
  show ?case
  proof (cases "offset + seekoff > lastsector")
    case True
    with "1.prems" show ?thesis
      by (auto simp: verify_try.simps[of d lastsector current seekoff j offset s])
  next
    case space: False
    obtain ret1 s1 where f: "cdda_read d s (offset + seekoff) 1 = (ret1, s1)"
      by (cases "cdda_read d s (offset + seekoff) 1")
    obtain ret2 s2 where r: "cdda_read d s1 offset 1 = (ret2, s2)"
      by (cases "cdda_read d s1 offset 1")
    have h2: "history s2 = Read offset 1 # Read (offset + seekoff) 1 # history s"
      using cdda_read_history[OF f] cdda_read_history[OF r] by simp
    have here: "\<forall>r \<in> set (history s2). r \<in> set (history s) \<or>
                  (\<exists>x. r = Read x 1 \<and> offset \<le> x \<and> x \<le> lastsector)"
      using h2 space "1.prems"(2) by auto
    show ?thesis
    proof (cases "(ret1 \<le> 0 \<or> ret2 \<le> 0) \<and> \<not> 10 \<le> j")
      case False
      with space f r "1.prems"(1) have "s' = s2"
        by (auto simp: verify_try.simps[of d lastsector current seekoff j offset s] Let_def
            split: if_splits)
      with here show ?thesis by simp
    next
      case True
      with space f r "1.prems"(1)
      have rec: "verify_try d lastsector current seekoff (Suc j) (offset + (current + 100)) s2
                   = (res, off', s')"
        by (auto simp: verify_try.simps[of d lastsector current seekoff j offset s] Let_def)
      from True have e: "ret1 \<le> 0 \<or> ret2 \<le> 0" and nj: "\<not> 10 \<le> j" by simp_all
      from "1.IH"[OF space f[symmetric] refl r[symmetric] refl e refl nj rec "1.prems"(2,3)]
      have ih: "\<forall>r \<in> set (history s'). r \<in> set (history s2) \<or>
                  (\<exists>x. r = Read x 1 \<and> offset + (current + 100) \<le> x \<and> x \<le> lastsector)" .
      show ?thesis
      proof
        fix q assume "q \<in> set (history s')"
        with ih have "q \<in> set (history s2) \<or>
            (\<exists>x. q = Read x 1 \<and> offset + (current + 100) \<le> x \<and> x \<le> lastsector)" by blast
        then show "q \<in> set (history s) \<or> (\<exists>x. q = Read x 1 \<and> offset \<le> x \<and> x \<le> lastsector)"
          using here "1.prems"(3) by auto
      qed
    qed
  qed
qed

lemma short_disc_range: "find_range short_disc = (100000, 100004)"
  by (simp add: find_range_def short_disc_def)

lemma top_short:
  "paranoia_analyze_verify d cm short_disc = search_and_verify d cm 100000 100004 init_state"
  by (simp add: paranoia_analyze_verify_def short_disc_range baseline_skipped)

text \<open>
  C9.  The search tests \<open>offset+current>lastsector\<close> only after a failed read has moved
  the offset.  On the short disc, whose audio ends at sector 100004, a drive with a cache
  of 6 sectors makes the search grow \<open>current\<close> to 7 without a failed read: it reads
  sector 100006 and the 7 sectors from 100000 on, and ends normally.  Only the space test
  of the contiguity check stops the probe afterwards.
\<close>

theorem search_reads_past_lastsector:
  "find_range short_disc = (100000, 100004) \<and>
   fst (search_loop (cache_drive 6) 100004 0 True 100000 init_state) = Inr (7, False) \<and>
   Read 100006 1 \<in> set (history (snd (paranoia_analyze_verify (cache_drive 6) 1200 short_disc))) \<and>
   Read 100000 7 \<in> set (history (snd (paranoia_analyze_verify (cache_drive 6) 1200 short_disc))) \<and>
   fst (paranoia_analyze_verify (cache_drive 6) 1200 short_disc) = VerifyOutOfSpace"
proof -
  have "fst (search_loop (cache_drive 6) 100004 0 True 100000 init_state) = Inr (7, False) \<and>
   Read 100006 1 \<in> set (history (snd (search_and_verify (cache_drive 6) 1200 100000 100004 init_state))) \<and>
   Read 100000 7 \<in> set (history (snd (search_and_verify (cache_drive 6) 1200 100000 100004 init_state))) \<and>
   fst (search_and_verify (cache_drive 6) 1200 100000 100004 init_state) = VerifyOutOfSpace"
    by code_simp
  then show ?thesis by (simp add: top_short short_disc_range)
qed

section \<open>Properties of the outlier-rejecting statistic\<close>

text \<open>
  What the sampling loop establishes when the drive never returns more sectors than it
  was asked for: the trigger sample has 1 sector and the samples cover \<open>current\<close>
  sectors, so the samples after the trigger cover \<open>current - 1\<close>, the divisor the code
  uses.
\<close>

lemma sample_loop_inv:
  "sample_loop d offset current i sofar samples sumx sumsq s = (Cont (samples', sumx', sumsq'), s')
     \<Longrightarrow> length samples = i \<Longrightarrow> (\<Sum>x\<leftarrow>samples. snd x) = sofar \<Longrightarrow> \<forall>x\<in>set samples. 0 < snd x
     \<Longrightarrow> i = 0 \<or> snd (hd samples) = 1 \<Longrightarrow> sofar \<le> current \<Longrightarrow> 0 < current
     \<Longrightarrow> sumx = (\<Sum>x\<leftarrow>tl samples. real_of_int (fst x))
     \<Longrightarrow> sumsq = (\<Sum>x\<leftarrow>tl samples. real_of_int (fst x * fst x) / real_of_int (snd x))
     \<Longrightarrow> \<forall>off n h. 0 < n \<longrightarrow> fst (d (Read off n # h)) \<le> n
     \<Longrightarrow> (\<Sum>x\<leftarrow>samples'. snd x) = current \<and> (\<forall>x\<in>set samples'. 0 < snd x) \<and>
         samples' \<noteq> [] \<and> snd (hd samples') = 1 \<and>
         sumx' = (\<Sum>x\<leftarrow>tl samples'. real_of_int (fst x)) \<and>
         sumsq' = (\<Sum>x\<leftarrow>tl samples'. real_of_int (fst x * fst x) / real_of_int (snd x))"
proof (induction d offset current i sofar samples sumx sumsq s rule: sample_loop.induct)
  case (1 d offset current i sofar samples sumx sumsq s)
  note contract = "1.prems"(10)
  show ?case
  proof (cases "sofar < current")
    case False
    with "1.prems"(1) have e: "samples' = samples" "sumx' = sumx" "sumsq' = sumsq"
      by (simp_all add: sample_loop.simps[of d offset current i sofar])
    from False "1.prems"(6,7) have "sofar = current" "0 < sofar" by simp_all
    with "1.prems"(2,3) have "i \<noteq> 0" by auto
    with "1.prems"(2,5) have "samples \<noteq> []" "snd (hd samples) = 1" by auto
    with e "1.prems" \<open>sofar = current\<close> show ?thesis by simp
  next
    case True
    let ?toread = "if i = 0 then 1 else current - sofar"
    obtain ret s1 where rd: "cdda_read d s (offset + sofar) ?toread = (ret, s1)"
      by (cases "cdda_read d s (offset + sofar) ?toread")
    from True rd "1.prems"(1) have pos: "\<not> ret \<le> 0"
      by (auto simp: sample_loop.simps[of d offset current i sofar] Let_def split: if_splits)
    have "0 < ?toread" using True by simp
    with contract rd have le: "ret \<le> ?toread" by (auto simp: cdda_read_def Let_def)
    let ?x = "clamp_ms (cdda_milliseconds s1)"
    let ?samples = "samples @ [(?x, ret)]"
    let ?sumx = "if i \<noteq> 0 then sumx + real_of_int ?x else sumx"
    let ?sumsq = "if i \<noteq> 0 then sumsq + real_of_int (?x * ?x) / real_of_int ret else sumsq"
    from pos True rd "1.prems"(1)
    have rec: "sample_loop d offset current (Suc i) (sofar + ret) ?samples ?sumx ?sumsq s1
               = (Cont (samples', sumx', sumsq'), s')"
      by (simp add: sample_loop.simps[of d offset current i sofar] Let_def)
    have p2: "length ?samples = Suc i" using "1.prems"(2) by simp
    have p3: "(\<Sum>x\<leftarrow>?samples. snd x) = sofar + ret" using "1.prems"(3) by simp
    have p4: "\<forall>x\<in>set ?samples. 0 < snd x" using "1.prems"(4) pos by auto
    have i0: "i = 0 \<Longrightarrow> samples = [] \<and> sofar = 0" using "1.prems"(2,3) by auto
    have p5: "Suc i = 0 \<or> snd (hd ?samples) = 1"
    proof (cases "i = 0")
      case True
      with le pos have "ret = 1" by simp
      with True i0 show ?thesis by simp
    next
      case False
      with "1.prems"(2,5) show ?thesis by (cases samples) auto
    qed
    have p6: "sofar + ret \<le> current"
    proof (cases "i = 0")
      case True
      with le pos i0 "1.prems"(7) show ?thesis by simp
    next
      case False
      with le show ?thesis by simp
    qed
    have p8: "?sumx = (\<Sum>x\<leftarrow>tl ?samples. real_of_int (fst x))"
    proof (cases "i = 0")
      case True
      with i0 "1.prems"(8) show ?thesis by simp
    next
      case False
      with "1.prems"(2) have "samples \<noteq> []" by auto
      with False "1.prems"(8) show ?thesis by simp
    qed
    have p9: "?sumsq = (\<Sum>x\<leftarrow>tl ?samples. real_of_int (fst x * fst x) / real_of_int (snd x))"
    proof (cases "i = 0")
      case True
      with i0 "1.prems"(9) show ?thesis by simp
    next
      case False
      with "1.prems"(2) have "samples \<noteq> []" by auto
      with False "1.prems"(9) show ?thesis by simp
    qed
    from "1.IH"[OF True refl refl rd[symmetric] pos refl rec p2 p3 p4 p5 p6 "1.prems"(7) p8 p9 contract]
    show ?thesis .
  qed
qed


lemma weighted_latency:
  "\<forall>x\<in>set xs. 0 < snd x \<Longrightarrow>
     (\<Sum>x\<leftarrow>xs. real_of_int (snd x) * per_sector x) = (\<Sum>x\<leftarrow>xs. real_of_int (fst x))"
  by (induction xs) (auto simp: per_sector_def)

lemma weighted_square:
  "\<forall>x\<in>set xs. 0 < snd x \<Longrightarrow>
     (\<Sum>x\<leftarrow>xs. real_of_int (snd x) * (per_sector x)\<^sup>2) =
     (\<Sum>x\<leftarrow>xs. real_of_int (fst x * fst x) / real_of_int (snd x))"
  by (induction xs) (auto simp: per_sector_def power2_eq_square)

lemma weighted_deviation:
  fixes w p :: "'a \<Rightarrow> real"
  shows "(\<Sum>x\<leftarrow>xs. w x * (p x - m)\<^sup>2) =
         (\<Sum>x\<leftarrow>xs. w x * (p x)\<^sup>2) - 2 * m * (\<Sum>x\<leftarrow>xs. w x * p x) + m\<^sup>2 * (\<Sum>x\<leftarrow>xs. w x)"
  by (induction xs) (auto simp: power2_eq_square algebra_simps)

lemma spec_sectors_int: "spec_sectors xs = real_of_int (\<Sum>x\<leftarrow>xs. snd x)"
  by (induction xs) (auto simp: spec_sectors_def)

lemma spec_sectors_pos:
  assumes "xs \<noteq> []" and "\<forall>x\<in>set xs. 0 < snd x"
  shows "0 < spec_sectors xs"
proof (cases xs)
  case Nil
  with assms show ?thesis by simp
next
  case (Cons y ys)
  have "0 \<le> (\<Sum>x\<leftarrow>ys. real_of_int (snd x))"
    using assms(2) Cons by (intro sum_list_nonneg) auto
  moreover have "0 < real_of_int (snd y)" using assms(2) Cons by simp
  ultimately show ?thesis using Cons by (simp add: spec_sectors_def)
qed

lemma spec_mean_eq:
  assumes "\<forall>x\<in>set xs. 0 < snd x"
  shows "spec_mean xs = (\<Sum>x\<leftarrow>xs. real_of_int (fst x)) / spec_sectors xs"
  by (simp add: spec_mean_def weighted_latency[OF assms])

lemma spec_variance_eq:
  assumes "\<forall>x\<in>set xs. 0 < snd x" and "xs \<noteq> []"
  shows "spec_variance xs =
     (\<Sum>x\<leftarrow>xs. real_of_int (fst x * fst x) / real_of_int (snd x)) / spec_sectors xs
       - spec_mean xs * spec_mean xs"
proof -
  let ?N = "spec_sectors xs"
  let ?m = "spec_mean xs"
  have N: "?N \<noteq> 0" using spec_sectors_pos[OF assms(2,1)] by simp
  have wp: "(\<Sum>x\<leftarrow>xs. real_of_int (snd x) * per_sector x) = ?m * ?N"
    using N by (simp add: spec_mean_def)
  have "(\<Sum>x\<leftarrow>xs. real_of_int (snd x) * (per_sector x - ?m)\<^sup>2) =
          (\<Sum>x\<leftarrow>xs. real_of_int (snd x) * (per_sector x)\<^sup>2) - 2 * ?m * (?m * ?N) + ?m\<^sup>2 * ?N"
    using weighted_deviation[of "\<lambda>x. real_of_int (snd x)" per_sector ?m xs] wp
    by (simp add: spec_sectors_def)
  also have "\<dots> = (\<Sum>x\<leftarrow>xs. real_of_int (fst x * fst x) / real_of_int (snd x)) - ?m * ?m * ?N"
    unfolding weighted_square[OF assms(1)] by (simp add: power2_eq_square)
  finally show ?thesis using N by (simp add: spec_variance_def diff_divide_distrib)
qed

lemma spec_variance_nonneg:
  assumes "\<forall>x\<in>set xs. 0 < snd x"
  shows "0 \<le> spec_variance xs"
proof -
  have "0 \<le> (\<Sum>x\<leftarrow>xs. real_of_int (snd x) * (per_sector x - spec_mean xs)\<^sup>2)"
    using assms by (intro sum_list_nonneg) auto
  moreover have "0 \<le> spec_sectors xs"
    unfolding spec_sectors_def using assms by (intro sum_list_nonneg) auto
  ultimately show ?thesis by (simp add: spec_variance_def)
qed

lemma second_pass_filter:
  "second_pass up xs (m, k) =
     (m + (\<Sum>x\<leftarrow>filter (\<lambda>x. per_sector x \<le> up) xs. real_of_int (fst x)),
      k + (\<Sum>x\<leftarrow>filter (\<lambda>x. per_sector x \<le> up) xs. snd x))"
  by (induction xs arbitrary: m k) (auto simp: per_sector_def)

lemma below_weighted_mean:
  assumes "xs \<noteq> []" and "\<forall>x\<in>set xs. 0 < snd x"
  shows "\<exists>x\<in>set xs. per_sector x \<le> spec_mean xs"
proof (rule ccontr)
  assume "\<not> (\<exists>x\<in>set xs. per_sector x \<le> spec_mean xs)"
  then have above: "\<forall>x\<in>set xs. spec_mean xs < per_sector x" by auto
  have gen: "ys \<noteq> [] \<Longrightarrow> \<forall>x\<in>set ys. 0 < snd x \<and> m < per_sector x \<Longrightarrow>
        m * (\<Sum>x\<leftarrow>ys. real_of_int (snd x)) < (\<Sum>x\<leftarrow>ys. real_of_int (snd x) * per_sector x)"
    for ys :: "(int \<times> int) list" and m
  proof (induction ys)
    case Nil
    then show ?case by simp
  next
    case (Cons y ys)
    have y: "m * real_of_int (snd y) < real_of_int (snd y) * per_sector y"
      using Cons.prems(2) by (simp add: mult.commute)
    show ?case
    proof (cases "ys = []")
      case True
      with y show ?thesis by simp
    next
      case False
      with Cons have "m * (\<Sum>x\<leftarrow>ys. real_of_int (snd x)) < (\<Sum>x\<leftarrow>ys. real_of_int (snd x) * per_sector x)"
        by simp
      with y show ?thesis by (simp add: algebra_simps)
    qed
  qed
  have N: "0 < spec_sectors xs" using spec_sectors_pos[OF assms] .
  from gen[of xs "spec_mean xs"] assms above
  have "spec_mean xs * spec_sectors xs < (\<Sum>x\<leftarrow>xs. real_of_int (snd x) * per_sector x)"
    by (simp add: spec_sectors_def)
  moreover have "(\<Sum>x\<leftarrow>xs. real_of_int (snd x) * per_sector x) = spec_mean xs * spec_sectors xs"
    using N by (simp add: spec_mean_def)
  ultimately show False by simp
qed


lemma sampled_facts:
  assumes "\<forall>off n h. 0 < n \<longrightarrow> fst (d (Read off n # h)) \<le> n"
    and "sample_loop d offset current 0 0 [] 0 0 s = (Cont (samples, sumx, sumsq), s')"
    and "1 < current"
  shows "tl samples \<noteq> []" and "\<forall>x\<in>set (tl samples). 0 < snd x"
    and "spec_sectors (tl samples) = real_of_int (current - 1)"
    and "sumx = (\<Sum>x\<leftarrow>tl samples. real_of_int (fst x))"
    and "sumsq = (\<Sum>x\<leftarrow>tl samples. real_of_int (fst x * fst x) / real_of_int (snd x))"
proof -
  have c: "0 < current" using assms(3) by simp
  from sample_loop_inv[OF assms(2) _ _ _ _ _ c _ _ assms(1)] c
  have inv: "(\<Sum>x\<leftarrow>samples. snd x) = current" "\<forall>x\<in>set samples. 0 < snd x"
    "samples \<noteq> []" "snd (hd samples) = 1"
    "sumx = (\<Sum>x\<leftarrow>tl samples. real_of_int (fst x))"
    "sumsq = (\<Sum>x\<leftarrow>tl samples. real_of_int (fst x * fst x) / real_of_int (snd x))"
    by simp_all
  from inv(3) obtain y ys where ys: "samples = y # ys" by (cases samples) auto
  with inv(1,4) have s: "(\<Sum>x\<leftarrow>ys. snd x) = current - 1" by simp
  with assms(3) show "tl samples \<noteq> []" using ys by auto
  from inv(2) ys show "\<forall>x\<in>set (tl samples). 0 < snd x" by simp
  from s ys show "spec_sectors (tl samples) = real_of_int (current - 1)"
    by (simp add: spec_sectors_int)
  from inv(5) show "sumx = (\<Sum>x\<leftarrow>tl samples. real_of_int (fst x))" .
  from inv(6) show "sumsq = (\<Sum>x\<leftarrow>tl samples. real_of_int (fst x * fst x) / real_of_int (snd x))" .
qed

lemma first_pass_eq:
  assumes "\<forall>off n h. 0 < n \<longrightarrow> fst (d (Read off n # h)) \<le> n"
    and "sample_loop d offset current 0 0 [] 0 0 s = (Cont (samples, sumx, sumsq), s')"
    and "1 < current"
  shows "raw_mean sumx current = spec_mean (tl samples)"
    and "raw_stddev sumx sumsq current = Some (sqrt (spec_variance (tl samples)))"
    and "upper sumx sumsq current = spec_bound (tl samples)"
proof -
  note f = sampled_facts[OF assms]
  show m: "raw_mean sumx current = spec_mean (tl samples)"
    by (simp add: raw_mean_def spec_mean_eq[OF f(2)] f(3) f(4))
  have v: "sumsq / real_of_int (current - 1) - raw_mean sumx current * raw_mean sumx current
             = spec_variance (tl samples)"
    unfolding m spec_variance_eq[OF f(2) f(1)] f(3) f(5) ..
  show sd: "raw_stddev sumx sumsq current = Some (sqrt (spec_variance (tl samples)))"
    unfolding raw_stddev_def v using spec_variance_nonneg[OF f(2)] by (simp add: c_sqrt_def)
  show "upper sumx sumsq current = spec_bound (tl samples)"
    unfolding upper_def sd m spec_bound_def by (simp add: max_def mult.commute)
qed

lemma accepted_sample:
  assumes "\<forall>off n h. 0 < n \<longrightarrow> fst (d (Read off n # h)) \<le> n"
    and "sample_loop d offset current 0 0 [] 0 0 s = (Cont (samples, sumx, sumsq), s')"
    and "1 < current"
  shows "\<exists>x\<in>set (tl samples). per_sector x \<le> upper sumx sumsq current"
    and "0 < (\<Sum>x\<leftarrow>filter (\<lambda>x. per_sector x \<le> upper sumx sumsq current) (tl samples). snd x)"
proof -
  note f = sampled_facts[OF assms]
  from below_weighted_mean[OF f(1,2)] obtain x where
    x: "x \<in> set (tl samples)" "per_sector x \<le> spec_mean (tl samples)" by blast
  have "spec_mean (tl samples) \<le> spec_bound (tl samples)" by (simp add: spec_bound_def)
  with x(2) have le: "per_sector x \<le> upper sumx sumsq current"
    unfolding first_pass_eq(3)[OF assms] by simp
  with x(1) show "\<exists>x\<in>set (tl samples). per_sector x \<le> upper sumx sumsq current" by blast
  let ?acc = "filter (\<lambda>x. per_sector x \<le> upper sumx sumsq current) (tl samples)"
  have "x \<in> set ?acc" using x(1) le by simp
  then have "?acc \<noteq> []" by (metis empty_iff empty_set)
  moreover have "\<forall>y\<in>set ?acc. 0 < snd y" using f(2) by simp
  ultimately have "0 < spec_sectors ?acc" by (rule spec_sectors_pos)
  then show "0 < (\<Sum>x\<leftarrow>?acc. snd x)" by (simp add: spec_sectors_int)
qed


text \<open>
  C10.  In exact arithmetic, on a drive that returns at most the sectors asked for, the
  samples after the trigger sample are not empty and at least one of them has a latency
  per sector at or below the rejection bound: the second pass counts at least one sector
  and \<open>mean/=sofar\<close> does not divide by zero.
\<close>

theorem some_sample_is_accepted:
  assumes "\<forall>off n h. 0 < n \<longrightarrow> fst (d (Read off n # h)) \<le> n"
    and "sample_loop d offset current 0 0 [] 0 0 s = (Cont (samples, sumx, sumsq), s')"
    and "1 < current"
  shows "(\<exists>x\<in>set (tl samples). per_sector x \<le> upper sumx sumsq current) \<and>
         0 < snd (second_pass (upper sumx sumsq current) (tl samples) (0, 0)) \<and>
         reported_mean samples sumx sumsq current \<noteq> None"
proof -
  have a: "0 < snd (second_pass (upper sumx sumsq current) (tl samples) (0, 0))"
    using accepted_sample(2)[OF assms] by (simp add: second_pass_filter)
  then have "reported_mean samples sumx sumsq current \<noteq> None"
    by (auto simp: reported_mean_def split: prod.splits)
  with a accepted_sample(1)[OF assms] show ?thesis by blast
qed



lemma miss_samples:
  "sample_loop miss_drive 0 1000 0 0 [] 0 0 init_state =
   (Cont ([(20, 1), (20, 999)], 20, 400 / 999),
    \<lparr>history = [Read 1 999, Read 0 1], last_ms = 20\<rparr>)"
  by (simp add: sample_loop.simps[of _ 0 1000 0 0] sample_loop.simps[of _ 0 1000 "Suc 0" 1]
      sample_loop.simps[of _ 0 1000 "Suc (Suc 0)" 1000] init_state_def
      cdda_read_def Let_def miss_drive_def clamp_ms_def cdda_milliseconds_def)

theorem some_sample_is_accepted_witness:
  "(1::int) < 1000 \<and>
   0 < snd (second_pass (upper 20 (400 / 999) 1000) [(20, 999)] (0, 0))"
proof -
  have c: "\<forall>off n h. 0 < n \<longrightarrow> fst (miss_drive (Read off n # h)) \<le> n"
    by (simp add: miss_drive_def)
  have l: "(1::int) < 1000" by simp
  from some_sample_is_accepted[OF c miss_samples l] l show ?thesis by simp
qed

end
